theory Spec2Isabelle
  imports Main "HOL-Library.Word"
begin

unbundle bit_operations_syntax

section \<open>The bump allocator of the sandboxed scanner (\<^verbatim>\<open>wasm/stdlib.c\<close>)\<close>

text \<open>
  The file is compiled for wasm32. Pointers, \<^verbatim>\<open>size_t\<close> and \<^verbatim>\<open>uintptr_t\<close> are 32-bit
  words whose arithmetic wraps around; \<^verbatim>\<open>ptrdiff_t\<close> and \<^verbatim>\<open>int\<close> are 32-bit two's
  complement. Pointer comparison is the unsigned order on words.
\<close>

type_synonym ptr = "32 word"
type_synonym size_t = "32 word"
type_synonym byte = "8 word"

definition PAGESIZE :: "32 word" where
  "PAGESIZE = 0x10000"

definition MAX_HEAP_SIZE :: "32 word" where
  "MAX_HEAP_SIZE = 4 * 1024 * 1024"

definition NULL :: ptr where
  "NULL = 0"

definition SIZE_MAX :: size_t where
  "SIZE_MAX = - 1"

text \<open>
  \<^verbatim>\<open>sizeof(Region)\<close>: one \<^verbatim>\<open>size_t\<close> followed by a zero-length array.
\<close>

definition sizeof_Region :: "32 word" where
  "sizeof_Region = 4"

subsection \<open>State\<close>

text \<open>
  The three statics \<^verbatim>\<open>heap_end\<close>, \<^verbatim>\<open>heap_start\<close> and \<^verbatim>\<open>next\<close>, together with the
  linear memory of the sandbox: its bytes, its current size in pages (what
  \<^verbatim>\<open>__builtin_wasm_memory_size(0)\<close> returns) and the limit beyond which
  \<^verbatim>\<open>__builtin_wasm_memory_grow\<close> fails. The statics are kept as fields of their own and
  not as bytes of \<open>mem\<close>.
\<close>

record allocator =
  heap_end :: ptr
  heap_start :: ptr
  "next" :: ptr
  mem :: "ptr \<Rightarrow> byte"
  pages :: nat
  max_pages :: nat

text \<open>An access outside the linear memory traps; the call does not return.\<close>

datatype trap = OutOfBounds

definition mem_bytes :: "allocator \<Rightarrow> nat" where
  "mem_bytes s = pages s * 65536"

definition in_bounds :: "allocator \<Rightarrow> ptr \<Rightarrow> nat \<Rightarrow> bool" where
  "in_bounds s a n = (unat a + n \<le> mem_bytes s)"

text \<open>Little-endian 32-bit stores and loads, as wasm's \<^verbatim>\<open>i32.store\<close> and \<^verbatim>\<open>i32.load\<close>.\<close>

definition store32 :: "(ptr \<Rightarrow> byte) \<Rightarrow> ptr \<Rightarrow> 32 word \<Rightarrow> (ptr \<Rightarrow> byte)" where
  "store32 m a v =
     m(a := ucast v,
       a + 1 := ucast (drop_bit 8 v),
       a + 2 := ucast (drop_bit 16 v),
       a + 3 := ucast (drop_bit 24 v))"

definition load32 :: "(ptr \<Rightarrow> byte) \<Rightarrow> ptr \<Rightarrow> 32 word" where
  "load32 m a =
     ucast (m a) OR push_bit 8 (ucast (m (a + 1)))
       OR push_bit 16 (ucast (m (a + 2))) OR push_bit 24 (ucast (m (a + 3)))"

text \<open>
  \<^verbatim>\<open>memory.grow\<close>: on success the old size in pages, on failure \<^verbatim>\<open>-1\<close>. A 32-bit memory
  never has more than 65536 pages. The new pages hold what \<open>mem\<close> says of their addresses:
  no access reaches them before, and nothing below depends on what they hold.
\<close>

definition memory_grow :: "allocator \<Rightarrow> 32 word \<Rightarrow> 32 word \<times> allocator" where
  "memory_grow s delta =
     (if pages s + unat delta \<le> min (max_pages s) 65536
      then (word_of_nat (pages s), s\<lparr>pages := pages s + unat delta\<rparr>)
      else (SIZE_MAX, s))"

text \<open>
  The C library's \<^verbatim>\<open>memset\<close> and \<^verbatim>\<open>memcpy\<close> on the linear memory. A call of length 0
  touches nothing; otherwise every byte of the ranges has to lie inside the memory.
  \<^verbatim>\<open>memcpy\<close> reads its source as it was before the call.
\<close>

definition memset :: "allocator \<Rightarrow> ptr \<Rightarrow> byte \<Rightarrow> size_t \<Rightarrow> trap + allocator" where
  "memset s dst c n =
     (if n = 0 then Inr s
      else if in_bounds s dst (unat n)
      then Inr (s\<lparr>mem := (\<lambda>a. if a - dst < n then c else mem s a)\<rparr>)
      else Inl OutOfBounds)"

definition memcpy :: "allocator \<Rightarrow> ptr \<Rightarrow> ptr \<Rightarrow> size_t \<Rightarrow> trap + allocator" where
  "memcpy s dst src n =
     (if n = 0 then Inr s
      else if in_bounds s dst (unat n) \<and> in_bounds s src (unat n)
      then Inr (s\<lparr>mem := (\<lambda>a. if a - dst < n then mem s (src + (a - dst)) else mem s a)\<rparr>)
      else Inl OutOfBounds)"

subsection \<open>The functions of the file\<close>

definition region_for_ptr :: "ptr \<Rightarrow> ptr" where
  "region_for_ptr p = p - sizeof_Region"

text \<open>\<^verbatim>\<open>&region->data\<close>\<close>

definition data_of :: "ptr \<Rightarrow> ptr" where
  "data_of region = region + sizeof_Region"

definition region_after :: "ptr \<Rightarrow> size_t \<Rightarrow> ptr" where
  "region_after self len =
     (let address = data_of self + len;
          aligned = (address + 3) AND NOT 3
      in aligned)"

definition get_heap_end :: "allocator \<Rightarrow> ptr" where
  "get_heap_end s = word_of_nat (pages s) * PAGESIZE"

definition grow_heap :: "allocator \<Rightarrow> size_t \<Rightarrow> bool \<times> allocator" where
  "grow_heap s sz =
     (let new_page_count = ((sz - 1) div PAGESIZE) + 1;
          (r, s') = memory_grow s new_page_count
      in (r \<noteq> SIZE_MAX, s'))"

definition reset_heap :: "allocator \<Rightarrow> ptr \<Rightarrow> allocator" where
  "reset_heap s new_heap_start =
     s\<lparr>heap_start := new_heap_start, next := new_heap_start, heap_end := get_heap_end s\<rparr>"

text \<open>
  The last four statements of \<^verbatim>\<open>malloc\<close>: the header is written at \<^verbatim>\<open>next\<close>, which then
  moves to \<^verbatim>\<open>region_end\<close>.
\<close>

definition malloc_commit :: "allocator \<Rightarrow> ptr \<Rightarrow> size_t \<Rightarrow> trap + (ptr \<times> allocator)" where
  "malloc_commit s region_end sz =
     (if in_bounds s (next s) 4
      then Inr (data_of (next s),
                s\<lparr>mem := store32 (mem s) (next s) sz, next := region_end\<rparr>)
      else Inl OutOfBounds)"

definition malloc :: "allocator \<Rightarrow> size_t \<Rightarrow> trap + (ptr \<times> allocator)" where
  "malloc s sz =
     (let region_end = region_after (next s) sz in
      if heap_end s < region_end then
        (if MAX_HEAP_SIZE <s region_end - heap_start s then Inr (NULL, s)
         else (case grow_heap s sz of
                 (ok, s') \<Rightarrow>
                   if \<not> ok then Inr (NULL, s')
                   else malloc_commit (s'\<lparr>heap_end := get_heap_end s'\<rparr>) region_end sz))
      else malloc_commit s region_end sz)"

definition free :: "allocator \<Rightarrow> ptr \<Rightarrow> trap + allocator" where
  "free s p =
     (if p = NULL then Inr s
      else
        (let region = region_for_ptr p in
         if \<not> in_bounds s region 4 then Inl OutOfBounds
         else
           (let region_end = region_after region (load32 (mem s) region) in
            if region_end = next s then Inr (s\<lparr>next := region\<rparr>) else Inr s)))"

definition calloc :: "allocator \<Rightarrow> size_t \<Rightarrow> size_t \<Rightarrow> trap + (ptr \<times> allocator)" where
  "calloc s count sz =
     (case malloc s (count * sz) of
        Inl t \<Rightarrow> Inl t
      | Inr (result, s') \<Rightarrow>
          (case memset s' result 0 (count * sz) of
             Inl t \<Rightarrow> Inl t
           | Inr s'' \<Rightarrow> Inr (result, s'')))"

definition realloc :: "allocator \<Rightarrow> ptr \<Rightarrow> size_t \<Rightarrow> trap + (ptr \<times> allocator)" where
  "realloc s p new_size =
     (if p = NULL then malloc s new_size
      else
        (let region = region_for_ptr p in
         if \<not> in_bounds s region 4 then Inl OutOfBounds
         else
           (let region_end = region_after region (load32 (mem s) region) in
            if region_end = next s then malloc (s\<lparr>next := region\<rparr>) new_size
            else
              (case malloc s new_size of
                 Inl t \<Rightarrow> Inl t
               | Inr (result, s') \<Rightarrow>
                   (case memcpy s' result (data_of region) (load32 (mem s') region) of
                      Inl t \<Rightarrow> Inl t
                    | Inr s'' \<Rightarrow> Inr (result, s''))))))"

subsection \<open>Alignment, call sequences and example states\<close>

definition aligned4 :: "ptr \<Rightarrow> bool" where
  "aligned4 p = (p AND 3 = 0)"

text \<open>
  A sandbox right after instantiation: \<open>n\<close> zeroed pages, a limit of \<open>m\<close> pages, and the
  three statics still \<^verbatim>\<open>NULL\<close>, as their initialisers leave them.
\<close>

definition instantiated :: "nat \<Rightarrow> nat \<Rightarrow> allocator" where
  "instantiated n m =
     \<lparr>heap_end = NULL, heap_start = NULL, next = NULL, mem = (\<lambda>_. 0), pages = n, max_pages = m\<rparr>"

text \<open>
  The calls a scanner makes, and a run of them. A scanner passes to \<^verbatim>\<open>free\<close> and
  \<^verbatim>\<open>realloc\<close> only \<^verbatim>\<open>NULL\<close> or a pointer that an earlier call of the run returned; a run
  that breaks this stops with \<open>BadPointer\<close>, one whose call traps stops with \<open>Trapped\<close>.
  A finished run gives the pointers returned so far (oldest first) and the final state.
\<close>

datatype call = Malloc size_t | Calloc size_t size_t | Realloc ptr size_t | Free ptr

datatype stop = Trapped | BadPointer

fun args_ok :: "ptr list \<Rightarrow> call \<Rightarrow> bool" where
  "args_ok ps (Free p) = (p = NULL \<or> p \<in> set ps)"
| "args_ok ps (Realloc p n) = (p = NULL \<or> p \<in> set ps)"
| "args_ok ps (Malloc n) = True"
| "args_ok ps (Calloc c n) = True"

fun exec_call :: "allocator \<Rightarrow> call \<Rightarrow> trap + (ptr list \<times> allocator)" where
  "exec_call s (Malloc n) =
     (case malloc s n of Inl t \<Rightarrow> Inl t | Inr (p, s') \<Rightarrow> Inr ([p], s'))"
| "exec_call s (Calloc c n) =
     (case calloc s c n of Inl t \<Rightarrow> Inl t | Inr (p, s') \<Rightarrow> Inr ([p], s'))"
| "exec_call s (Realloc q n) =
     (case realloc s q n of Inl t \<Rightarrow> Inl t | Inr (p, s') \<Rightarrow> Inr ([p], s'))"
| "exec_call s (Free q) =
     (case free s q of Inl t \<Rightarrow> Inl t | Inr s' \<Rightarrow> Inr ([], s'))"

fun run :: "ptr list \<Rightarrow> allocator \<Rightarrow> call list \<Rightarrow> stop + (ptr list \<times> allocator)" where
  "run ps s [] = Inr (ps, s)"
| "run ps s (c # cs) =
     (if \<not> args_ok ps c then Inl BadPointer
      else (case exec_call s c of
              Inl t \<Rightarrow> Inl Trapped
            | Inr (qs, s') \<Rightarrow> run (ps @ qs) s' cs))"


text \<open>\<open>n\<close> allocations in a row, and the release of a list of pointers in the given order.\<close>

fun mallocs :: "allocator \<Rightarrow> size_t list \<Rightarrow> trap + (ptr list \<times> allocator)" where
  "mallocs s [] = Inr ([], s)"
| "mallocs s (n # ns) =
     (case malloc s n of
        Inl t \<Rightarrow> Inl t
      | Inr (p, s') \<Rightarrow>
          (case mallocs s' ns of Inl t \<Rightarrow> Inl t | Inr (ps, s'') \<Rightarrow> Inr (p # ps, s'')))"

fun frees :: "allocator \<Rightarrow> ptr list \<Rightarrow> trap + allocator" where
  "frees s [] = Inr s"
| "frees s (p # ps) = (case free s p of Inl t \<Rightarrow> Inl t | Inr s' \<Rightarrow> frees s' ps)"

text \<open>
  The end of the region that \<^verbatim>\<open>malloc(sz)\<close> would hand out, in unbounded arithmetic: the header
  at \<^verbatim>\<open>next\<close>, \<open>sz\<close> bytes of data, rounded up to a multiple of four.
\<close>

definition true_region_end :: "ptr \<Rightarrow> size_t \<Rightarrow> nat" where
  "true_region_end region sz = (unat region + 4 + unat sz + 3) div 4 * 4"

text \<open>
  \<open>p\<close> is the block that the most recent allocation handed out, with \<open>sz\<close> bytes: the header
  in front of it holds \<open>sz\<close> and its region ends at \<^verbatim>\<open>next\<close>. This is the test that \<^verbatim>\<open>free\<close>
  and \<^verbatim>\<open>realloc\<close> make.
\<close>

definition last_block :: "allocator \<Rightarrow> ptr \<Rightarrow> size_t \<Rightarrow> bool" where
  "last_block s p sz =
     (p \<noteq> NULL \<and> in_bounds s (region_for_ptr p) 4 \<and>
      load32 (mem s) (region_for_ptr p) = sz \<and>
      region_after (region_for_ptr p) sz = next s)"


text \<open>What a scanner can observe of a row of allocations: the pointers and the statics.\<close>

definition statics :: "allocator \<Rightarrow> ptr \<times> ptr \<times> ptr \<times> nat" where
  "statics s = (heap_end s, heap_start s, next s, pages s)"

definition observed :: "'e + (ptr list \<times> allocator) \<Rightarrow> 'e + (ptr list \<times> (ptr \<times> ptr \<times> ptr \<times> nat))" where
  "observed r = (case r of Inl t \<Rightarrow> Inl t | Inr (ps, s) \<Rightarrow> Inr (ps, statics s))"


text \<open>Example states, each the result of the calls named in the theorem that uses it.\<close>

definition small_heap :: allocator where
  "small_heap = reset_heap (instantiated 1 2048) 1024"

definition full_page :: allocator where
  "full_page = small_heap\<lparr>next := 65536, mem := store32 (mem small_heap) 1024 64508\<rparr>"

definition grown_page :: allocator where
  "grown_page =
     full_page\<lparr>heap_end := 131072, next := 131076,
        mem := store32 (mem full_page) 65536 65536, pages := 2\<rparr>"

definition one_block :: allocator where
  "one_block = small_heap\<lparr>next := 1044, mem := store32 (mem small_heap) 1024 16\<rparr>"

definition wrapped_heap :: allocator where
  "wrapped_heap =
     small_heap\<lparr>next := 1128,
        mem := store32 (store32 (store32 (mem small_heap) 1024 4) 1032 (- 12)) 1024 100\<rparr>"

definition empty_tail_heap :: allocator where
  "empty_tail_heap =
     small_heap\<lparr>next := 1032,
        mem := store32 (store32 (mem small_heap) 1024 4) 1032 (- 4)\<rparr>"

definition big_heap :: allocator where
  "big_heap =
     small_heap\<lparr>heap_end := 4259840, next := 4195328,
        mem := store32 (mem small_heap) 1024 4194300, pages := 65\<rparr>"

definition bigger_heap :: allocator where
  "bigger_heap = big_heap\<lparr>next := 4195432, mem := store32 (mem big_heap) 4195328 100\<rparr>"


text \<open>A sandbox of one page whose memory holds the bytes of 1100 at address 2052.\<close>

definition stale_bytes :: allocator where
  "stale_bytes =
     (instantiated 1 2048)\<lparr>mem := store32 (mem (instantiated 1 2048)) 2052 1100\<rparr>"

section \<open>The tree cursor's step result (\<^verbatim>\<open>tree_cursor.h\<close>)\<close>

datatype TreeCursorStep = TreeCursorStepNone | TreeCursorStepHidden | TreeCursorStepVisible

text \<open>
  Modelled from the spec: \<^verbatim>\<open>subtree.h\<close>, which the header includes, is missing. A subtree
  has a symbol, an extent in bytes and an ordered sequence of children.
\<close>

datatype Subtree = Subtree (symbol: nat) (extent: nat) (children: "Subtree list")

text \<open>
  The entry of the header, with the fields whose maintenance the specification describes;
  \<^verbatim>\<open>structural_child_index\<close> and \<^verbatim>\<open>descendant_index\<close> are left out. The last entry of the
  stack is the current node.
\<close>

record TreeCursorEntry =
  subtree :: Subtree
  position :: nat
  child_index :: nat

record TreeCursor =
  tree :: Subtree
  stack :: "TreeCursorEntry list"
  root_alias_symbol :: nat

definition step_to :: "(nat \<Rightarrow> bool) \<Rightarrow> Subtree \<Rightarrow> TreeCursorStep" where
  "step_to hidden t = (if hidden (symbol t) then TreeCursorStepHidden else TreeCursorStepVisible)"

text \<open>
  Modelled from the spec: \<^verbatim>\<open>ts_tree_cursor_goto_first_child_internal\<close> is declared in
  \<^verbatim>\<open>tree_cursor.h\<close> and defined in \<^verbatim>\<open>tree_cursor.c\<close>, which is missing. The move fails when
  the current node has no children; otherwise the cursor lands on the first child, and the
  result says whether the grammar (\<open>hidden\<close>, per symbol) marks that node invisible.
\<close>

definition ts_tree_cursor_goto_first_child_internal ::
  "(nat \<Rightarrow> bool) \<Rightarrow> TreeCursor \<Rightarrow> TreeCursorStep \<times> TreeCursor" where
  "ts_tree_cursor_goto_first_child_internal hidden c =
     (case rev (stack c) of
        [] \<Rightarrow> (TreeCursorStepNone, c)
      | e # es \<Rightarrow>
          (case children (subtree e) of
             [] \<Rightarrow> (TreeCursorStepNone, c)
           | ch # chs \<Rightarrow>
               (step_to hidden ch,
                c\<lparr>stack := stack c @ [\<lparr>subtree = ch, position = position e, child_index = 0\<rparr>]\<rparr>)))"

text \<open>
  Modelled from the spec: \<^verbatim>\<open>ts_tree_cursor_goto_next_sibling_internal\<close>, missing in the same
  way. The move fails at the root and at a last child; otherwise the cursor lands on the next
  child of the parent, its position advanced by the extent of the node it leaves.
\<close>

definition ts_tree_cursor_goto_next_sibling_internal ::
  "(nat \<Rightarrow> bool) \<Rightarrow> TreeCursor \<Rightarrow> TreeCursorStep \<times> TreeCursor" where
  "ts_tree_cursor_goto_next_sibling_internal hidden c =
     (case rev (stack c) of
        e # parent # es \<Rightarrow>
          (let i = Suc (child_index e) in
           if i < length (children (subtree parent)) then
             (let ch = children (subtree parent) ! i in
              (step_to hidden ch,
               c\<lparr>stack := butlast (stack c) @
                    [\<lparr>subtree = ch, position = position e + extent (subtree e),
                      child_index = i\<rparr>]\<rparr>))
           else (TreeCursorStepNone, c))
      | _ \<Rightarrow> (TreeCursorStepNone, c))"

text \<open>
  The two step operations under one name, the node the cursor is at, and the condition under
  which the move exists: the current node has a child, or it has a parent with a further
  child after it.
\<close>

datatype cursor_move = FirstChild | NextSibling

fun step_internal ::
  "cursor_move \<Rightarrow> (nat \<Rightarrow> bool) \<Rightarrow> TreeCursor \<Rightarrow> TreeCursorStep \<times> TreeCursor" where
  "step_internal FirstChild hidden c = ts_tree_cursor_goto_first_child_internal hidden c"
| "step_internal NextSibling hidden c = ts_tree_cursor_goto_next_sibling_internal hidden c"

definition current :: "TreeCursor \<Rightarrow> Subtree" where
  "current c = subtree (last (stack c))"

fun move_exists :: "cursor_move \<Rightarrow> TreeCursor \<Rightarrow> bool" where
  "move_exists FirstChild c = (stack c \<noteq> [] \<and> children (current c) \<noteq> [])"
| "move_exists NextSibling c =
     (2 \<le> length (stack c) \<and>
      Suc (child_index (last (stack c)))
        < length (children (subtree (last (butlast (stack c))))))"

definition example_tree :: Subtree where
  "example_tree = Subtree 1 5 [Subtree 2 1 [], Subtree 3 3 [Subtree 4 3 []], Subtree 5 1 []]"

definition example_cursor :: TreeCursor where
  "example_cursor =
     \<lparr>tree = example_tree,
      stack = [\<lparr>subtree = example_tree, position = 0, child_index = 0\<rparr>],
      root_alias_symbol = 0\<rparr>"

text \<open>A grammar that hides symbol 2, and the example cursor moved to its first child.\<close>

definition hidden_two :: "nat \<Rightarrow> bool" where
  "hidden_two sy = (sy = 2)"

definition first_child_cursor :: TreeCursor where
  "first_child_cursor =
     example_cursor\<lparr>stack := stack example_cursor @
        [\<lparr>subtree = Subtree 2 1 [], position = 0, child_index = 0\<rparr>]\<rparr>"

section \<open>The scanner calls of the sandbox (\<^verbatim>\<open>wasm_store.h\<close>)\<close>

text \<open>The declarations of the header, in its order: name, result type, parameter types.\<close>

datatype c_type =
  CVoid | CBool | CUint32 | CUnsigned | CNamed string | CPtr string | CConstPtr string

record c_decl =
  d_name :: string
  d_returns :: c_type
  d_params :: "c_type list"

definition wasm_store_h :: "c_decl list" where
  "wasm_store_h =
    [\<lparr>d_name = ''ts_wasm_store_start'', d_returns = CBool,
      d_params = [CPtr ''TSWasmStore'', CPtr ''TSLexer'', CConstPtr ''TSLanguage'']\<rparr>,
     \<lparr>d_name = ''ts_wasm_store_reset'', d_returns = CVoid, d_params = [CPtr ''TSWasmStore'']\<rparr>,
     \<lparr>d_name = ''ts_wasm_store_has_error'', d_returns = CBool,
      d_params = [CConstPtr ''TSWasmStore'']\<rparr>,
     \<lparr>d_name = ''ts_wasm_store_call_lex_main'', d_returns = CBool,
      d_params = [CPtr ''TSWasmStore'', CNamed ''TSStateId'']\<rparr>,
     \<lparr>d_name = ''ts_wasm_store_call_lex_keyword'', d_returns = CBool,
      d_params = [CPtr ''TSWasmStore'', CNamed ''TSStateId'']\<rparr>,
     \<lparr>d_name = ''ts_wasm_store_call_scanner_create'', d_returns = CUint32,
      d_params = [CPtr ''TSWasmStore'']\<rparr>,
     \<lparr>d_name = ''ts_wasm_store_call_scanner_destroy'', d_returns = CVoid,
      d_params = [CPtr ''TSWasmStore'', CUint32]\<rparr>,
     \<lparr>d_name = ''ts_wasm_store_call_scanner_scan'', d_returns = CBool,
      d_params = [CPtr ''TSWasmStore'', CUint32, CUint32]\<rparr>,
     \<lparr>d_name = ''ts_wasm_store_call_scanner_serialize'', d_returns = CUint32,
      d_params = [CPtr ''TSWasmStore'', CUint32, CPtr ''char'']\<rparr>,
     \<lparr>d_name = ''ts_wasm_store_call_scanner_deserialize'', d_returns = CVoid,
      d_params = [CPtr ''TSWasmStore'', CUint32, CConstPtr ''char'', CUnsigned]\<rparr>,
     \<lparr>d_name = ''ts_wasm_language_retain'', d_returns = CVoid,
      d_params = [CConstPtr ''TSLanguage'']\<rparr>,
     \<lparr>d_name = ''ts_wasm_language_release'', d_returns = CVoid,
      d_params = [CConstPtr ''TSLanguage'']\<rparr>]"

definition scanner_prefix :: string where
  "scanner_prefix = ''ts_wasm_store_call_scanner_''"

definition is_scanner_call :: "c_decl \<Rightarrow> bool" where
  "is_scanner_call d = (take (length scanner_prefix) (d_name d) = scanner_prefix)"

definition scanner_calls :: "c_decl list" where
  "scanner_calls = filter is_scanner_call wasm_store_h"

definition operation :: "c_decl \<Rightarrow> string" where
  "operation d = drop (length scanner_prefix) (d_name d)"

section \<open>Facts about the allocator\<close>

named_theorems alloc_defs

lemmas alloc_consts [alloc_defs] =
  PAGESIZE_def MAX_HEAP_SIZE_def NULL_def SIZE_MAX_def sizeof_Region_def
  mem_bytes_def in_bounds_def memory_grow_def region_for_ptr_def data_of_def
  region_after_def get_heap_end_def grow_heap_def reset_heap_def malloc_commit_def

subsection \<open>Loads and stores\<close>

lemma load32_store32 [simp]: "load32 (store32 m a v) a = v"
  unfolding load32_def store32_def
  apply simp
  apply (rule bit_word_eqI)
  apply (auto simp add: bit_simps)
  subgoal for n by (cases "n < 24") auto
  done

lemma store32_store32 [simp]: "store32 (store32 m a v) a w = store32 m a w"
  unfolding store32_def by (rule ext) simp

lemma store32_other:
  assumes "c - b \<notin> {0, 1, 2, 3}"
  shows "store32 m b v c = m c"
proof -
  have "c \<noteq> b" "c \<noteq> b + 1" "c \<noteq> b + 2" "c \<noteq> b + 3"
    using assms by (auto simp add: algebra_simps)
  then show ?thesis by (simp add: store32_def)
qed

lemma load32_store32_other:
  assumes "a - b \<notin> {0, 1, 2, 3, - 1, - 2, - 3}"
  shows "load32 (store32 m b v) a = load32 m a"
proof -
  have "a - b \<notin> {0, 1, 2, 3}" "a + 1 - b \<notin> {0, 1, 2, 3}"
       "a + 2 - b \<notin> {0, 1, 2, 3}" "a + 3 - b \<notin> {0, 1, 2, 3}"
    using assms by (auto simp add: algebra_simps)
  then show ?thesis
    by (simp add: load32_def store32_other)
qed

subsection \<open>Alignment and the end of a region\<close>

lemma three_mask: "(3 :: 32 word) = mask 2"
  by (simp add: mask_eq_exp_minus_1)

lemma Suc_Suc_diff_2: "2 \<le> n \<Longrightarrow> Suc (Suc (n - 2)) = n"
  by simp

lemma and_not_3: "(x :: 32 word) AND NOT 3 = x div 4 * 4"
proof -
  have "x AND NOT (mask 2) = push_bit 2 (drop_bit 2 x)"
    by (rule bit_word_eqI) (auto simp add: bit_simps Suc_Suc_diff_2 not_less)
  then show ?thesis
    by (simp add: three_mask push_bit_eq_mult drop_bit_eq_div)
qed

lemma unat_and_not_3: "unat ((x :: 32 word) AND NOT 3) = unat x div 4 * 4"
proof -
  have "unat x div 4 * 4 \<le> unat x" by simp
  moreover have "unat x < 2 ^ 32" using unsigned_less [of x] by simp
  ultimately have lt: "unat (x div 4) * unat (4 :: 32 word) < 2 ^ LENGTH(32)"
    by (simp add: unat_div)
  show ?thesis
    unfolding and_not_3
    using lt unat_mult_lem [of "x div 4" 4]
    by (simp add: unat_div)
qed

lemma unat_add3:
  fixes a b c :: "32 word"
  assumes "unat a + unat b + unat c < 2 ^ 32"
  shows "unat (a + b + c) = unat a + unat b + unat c"
proof -
  have ab: "unat (a + b) = unat a + unat b"
    using assms unat_add_lem [of a b] by simp
  then show ?thesis
    using assms unat_add_lem [of "a + b" c] by simp
qed

lemma unat_region_after:
  assumes "true_region_end self len < 2 ^ 32"
  shows "unat (region_after self len) = true_region_end self len"
proof -
  have lt: "unat self + unat len + 7 < 2 ^ 32"
    using assms unfolding true_region_end_def by simp
  have "region_after self len = (self + len + 7) AND NOT 3"
    by (simp add: region_after_def data_of_def sizeof_Region_def Let_def algebra_simps)
  moreover have "unat (self + len + 7) = unat self + unat len + 7"
    using lt unat_add3 [of self len 7] by simp
  ultimately show ?thesis
    by (simp only: unat_and_not_3 true_region_end_def) simp
qed

lemma sint_eq_unat:
  fixes w :: "32 word"
  assumes "unat w < 2 ^ 31"
  shows "sint w = int (unat w)"
proof -
  have eq: "uint w = int (unat w)"
    by (rule uint_nat)
  have "int (unat w) < int (2 ^ 31)"
    using assms by (simp only: of_nat_less_iff)
  then have "uint w < 2 ^ 31"
    by (simp only: eq) simp
  moreover have "- (2 ^ 31) \<le> uint w"
    by (rule order_trans [of _ 0]) simp_all
  ultimately have "signed_take_bit 31 (uint w) = uint w"
    by (rule signed_take_bit_int_eq_self [rotated])
  then have "sint w = uint w"
    by (simp add: sint_uint)
  then show ?thesis
    by (simp only: eq)
qed

text \<open>The ceiling test of malloc, read in unbounded arithmetic.\<close>

lemma ceiling_test:
  assumes "true_region_end r sz < 2 ^ 32"
    and "unat hs \<le> true_region_end r sz"
    and "true_region_end r sz - unat hs < 2 ^ 31"
  shows "(MAX_HEAP_SIZE <s region_after r sz - hs) = (unat MAX_HEAP_SIZE < true_region_end r sz - unat hs)"
proof -
  have u: "unat (region_after r sz) = true_region_end r sz"
    using assms(1) by (rule unat_region_after)
  have "hs \<le> region_after r sz"
    using assms(2) by (simp add: word_le_nat_alt u)
  then have d: "unat (region_after r sz - hs) = true_region_end r sz - unat hs"
    by (simp add: unat_sub u)
  then have "sint (region_after r sz - hs) = int (true_region_end r sz - unat hs)"
    using assms(3) sint_eq_unat [of "region_after r sz - hs"] by simp
  then show ?thesis
    by (simp add: word_sless_alt MAX_HEAP_SIZE_def)
qed

lemmas evaluate =
  malloc_def free_def realloc_def calloc_def memset_def memcpy_def alloc_defs
  instantiated_def small_heap_def Let_def word_sless_alt

subsection \<open>What malloc returns\<close>

lemma region_for_ptr_data_of [simp]: "region_for_ptr (data_of r) = r"
  by (simp add: region_for_ptr_def data_of_def)

lemma data_of_region_for_ptr [simp]: "data_of (region_for_ptr p) = p"
  by (simp add: region_for_ptr_def data_of_def)

lemma pages_not_SIZE_MAX:
  assumes "n \<le> 65536"
  shows "(word_of_nat n :: 32 word) \<noteq> SIZE_MAX"
proof
  assume "(word_of_nat n :: 32 word) = SIZE_MAX"
  then have "unat (word_of_nat n :: 32 word) = unat (- 1 :: 32 word)"
    by (simp add: SIZE_MAX_def)
  moreover have "unat (word_of_nat n :: 32 word) = n"
    using assms by (simp add: unat_of_nat)
  ultimately show False
    using assms by (simp add: unsigned_minus_1_eq_mask mask_eq_exp_minus_1)
qed

lemma grow_heap_result:
  "grow_heap s sz =
     (if pages s + unat ((sz - 1) div PAGESIZE + 1) \<le> min (max_pages s) 65536
      then (True, s\<lparr>pages := pages s + unat ((sz - 1) div PAGESIZE + 1)\<rparr>)
      else (False, s))"
  by (simp add: grow_heap_def memory_grow_def Let_def pages_not_SIZE_MAX)

lemma grow_heap_next [simp]:
  "grow_heap (s\<lparr>next := r\<rparr>) sz = (fst (grow_heap s sz), (snd (grow_heap s sz))\<lparr>next := r\<rparr>)"
  by (simp add: grow_heap_def memory_grow_def Let_def)





lemma malloc_cases:
  assumes "malloc s sz = Inr (p, s')"
  shows "(p = NULL \<and> s' = s) \<or>
         (p = data_of (next s) \<and> in_bounds s' (next s) 4
          \<and> mem s' = store32 (mem s) (next s) sz
          \<and> next s' = region_after (next s) sz
          \<and> heap_start s' = heap_start s \<and> max_pages s' = max_pages s
          \<and> pages s \<le> pages s')"
  using assms
  by (auto simp add: malloc_def Let_def malloc_commit_def grow_heap_result
      in_bounds_def mem_bytes_def split: if_splits)




subsection \<open>Release of blocks\<close>

lemma free_keeps:
  assumes "free s p = Inr s'"
  shows "mem s' = mem s \<and> pages s' = pages s \<and> max_pages s' = max_pages s
         \<and> heap_start s' = heap_start s \<and> heap_end s' = heap_end s"
  using assms by (auto simp add: free_def Let_def split: if_splits)

lemma frees_keeps:
  assumes "frees s ps = Inr s'"
  shows "mem s' = mem s \<and> pages s' = pages s \<and> max_pages s' = max_pages s
         \<and> heap_start s' = heap_start s \<and> heap_end s' = heap_end s"
  using assms
proof (induction ps arbitrary: s)
  case Nil
  then show ?case by simp
next
  case (Cons p ps)
  then obtain s1 where f: "free s p = Inr s1" and r: "frees s1 ps = Inr s'"
    by (auto split: sum.splits)
  from Cons.IH [OF r] free_keeps [OF f] show ?case by simp
qed

lemma frees_append:
  "frees s (ps @ qs) = (case frees s ps of Inl t \<Rightarrow> Inl t | Inr s' \<Rightarrow> frees s' qs)"
  by (induction ps arbitrary: s) (auto split: sum.splits)

lemma free_last_block:
  assumes "last_block s p sz"
  shows "free s p = Inr (s\<lparr>next := region_for_ptr p\<rparr>)"
  using assms by (simp add: last_block_def free_def Let_def)

lemma malloc_at:
  assumes "malloc s n = Inr (q, s')" and "q \<noteq> NULL"
  shows "q = data_of (next s)"
  using malloc_cases [OF assms(1)] assms(2) by auto

text \<open>
  In every state the release of the last block moves \<^verbatim>\<open>next\<close> back to its region and
  touches nothing else, and the next allocation is placed at \<open>p\<close>.
\<close>

lemma free_of_last_block_rewinds:
  assumes "last_block s p sz"
  shows "free s p = Inr (s\<lparr>next := region_for_ptr p\<rparr>)"
    and "malloc (s\<lparr>next := region_for_ptr p\<rparr>) n = Inr (q, s') \<Longrightarrow> q \<noteq> NULL \<Longrightarrow> q = p"
proof -
  show "free s p = Inr (s\<lparr>next := region_for_ptr p\<rparr>)"
    using assms by (rule free_last_block)
  show "q = p" if "malloc (s\<lparr>next := region_for_ptr p\<rparr>) n = Inr (q, s')" and "q \<noteq> NULL"
    using malloc_at [OF that] by simp
qed

subsection \<open>Rows of allocations that do not wrap around\<close>

lemma true_region_end_bounds:
  "unat r + 4 + unat n \<le> true_region_end r n" "true_region_end r n \<le> unat r + unat n + 7"
  by (simp_all add: true_region_end_def)

lemma below_not_header:
  fixes a r :: "32 word"
  assumes "unat a < unat r" and "unat r + 4 \<le> 2 ^ 32"
  shows "a - r \<notin> {0, 1, 2, 3}"
proof -
  have "unat (a - r) = unat a + 2 ^ 32 - unat r"
    using assms(1) by (simp add: unat_sub_if_size word_size)
  then have "4 \<le> unat (a - r)"
    using assms unsigned_less [of a] by simp
  then show ?thesis by auto
qed

lemma malloc_frame:
  assumes m: "malloc s n = Inr (p, s')" and nw: "unat (next s) + unat n + 7 < 2 ^ 32"
  shows "unat (next s) \<le> unat (next s')"
    and "unat (next s') \<le> unat (next s) + unat n + 7"
    and "unat a < unat (next s) \<Longrightarrow> mem s' a = mem s a"
    and "p \<noteq> NULL \<Longrightarrow> unat (next s) + 4 \<le> unat (next s')"
    and "pages s \<le> pages s'"
proof -
  have lt: "true_region_end (next s) n < 2 ^ 32"
    using nw true_region_end_bounds(2) [of "next s" n] by simp
  have u: "unat (region_after (next s) n) = true_region_end (next s) n"
    using lt by (rule unat_region_after)
  from malloc_cases [OF m] consider
      (fail) "p = NULL" "s' = s"
    | (ok) "p = data_of (next s)" "mem s' = store32 (mem s) (next s) n"
        "next s' = region_after (next s) n" "pages s \<le> pages s'"
    by blast
  note c = this
  show "unat (next s) \<le> unat (next s')"
    using c true_region_end_bounds(1) [of "next s" n] by cases (simp_all add: u)
  show "unat (next s') \<le> unat (next s) + unat n + 7"
    using c true_region_end_bounds(2) [of "next s" n] by cases (simp_all add: u)
  show "mem s' a = mem s a" if "unat a < unat (next s)"
    using c
  proof cases
    case fail
    then show ?thesis by simp
  next
    case ok
    have "a - next s \<notin> {0, 1, 2, 3}"
      using that nw by (intro below_not_header) simp_all
    then show ?thesis by (simp add: ok store32_other)
  qed
  show "unat (next s) + 4 \<le> unat (next s')" if "p \<noteq> NULL"
    using c that true_region_end_bounds(1) [of "next s" n] by cases (simp_all add: u)
  show "pages s \<le> pages s'"
    using c by cases simp_all
qed


lemma load32_agree:
  assumes "m' a = m a" "m' (a + 1) = m (a + 1)" "m' (a + 2) = m (a + 2)" "m' (a + 3) = m (a + 3)"
  shows "load32 m' a = load32 m a"
  using assms by (simp add: load32_def)

lemma unat_plus_small:
  fixes a k :: "32 word"
  assumes "unat a + unat k < 2 ^ 32"
  shows "unat (a + k) = unat a + unat k"
  using assms unat_add_lem [of a k] by simp

lemma load32_below:
  assumes agree: "\<And>b. unat b < lim \<Longrightarrow> m' b = m b"
    and "unat a + 4 \<le> lim" and "lim < 2 ^ 32"
  shows "load32 m' a = load32 m a"
proof (rule load32_agree)
  show "m' a = m a"
    using assms by (intro agree) simp
  show "m' (a + 1) = m (a + 1)"
    using assms unat_plus_small [of a 1] by (intro agree) simp
  show "m' (a + 2) = m (a + 2)"
    using assms unat_plus_small [of a 2] by (intro agree) simp
  show "m' (a + 3) = m (a + 3)"
    using assms unat_plus_small [of a 3] by (intro agree) simp
qed

lemma mallocs_frame:
  assumes "mallocs s ns = Inr (ps, s')"
    and "unat (next s) + sum_list (map (\<lambda>n. unat n + 7) ns) < 2 ^ 32"
  shows "unat (next s) \<le> unat (next s')
     \<and> unat (next s') \<le> unat (next s) + sum_list (map (\<lambda>n. unat n + 7) ns)
     \<and> (\<forall>a. unat a < unat (next s) \<longrightarrow> mem s' a = mem s a)
     \<and> pages s \<le> pages s'
     \<and> ((\<exists>p\<in>set ps. p \<noteq> NULL) \<longrightarrow> unat (next s) + 4 \<le> unat (next s'))"
  using assms
proof (induction ns arbitrary: s ps)
  case Nil
  then show ?case by simp
next
  case (Cons n ns)
  from Cons.prems(1) obtain p s1 ps1 where m: "malloc s n = Inr (p, s1)"
    and r: "mallocs s1 ns = Inr (ps1, s')" and ps: "ps = p # ps1"
    by (auto split: sum.splits)
  have nw: "unat (next s) + unat n + 7 < 2 ^ 32"
    using Cons.prems(2) by simp
  note f = malloc_frame [OF m nw]
  have nw1: "unat (next s1) + sum_list (map (\<lambda>n. unat n + 7) ns) < 2 ^ 32"
    using Cons.prems(2) f(2) by simp
  note ih = Cons.IH [OF r nw1]
  have "mem s' a = mem s a" if "unat a < unat (next s)" for a
  proof -
    have "unat a < unat (next s1)" using that f(1) by simp
    with ih have "mem s' a = mem s1 a" by blast
    with f(3) [OF that] show ?thesis by simp
  qed
  moreover have "unat (next s) + 4 \<le> unat (next s')" if "\<exists>p\<in>set ps. p \<noteq> NULL"
  proof (cases "p = NULL")
    case True
    with that ps have "\<exists>p\<in>set ps1. p \<noteq> NULL" by auto
    with ih f(1) show ?thesis by simp
  next
    case False
    from f(4) [OF this] ih show ?thesis by simp
  qed
  ultimately show ?case
    using ih f(1) f(2) f(5) by auto
qed

text \<open>
  Where no region wraps around: after a row of successful allocations, the release of
  the pointers in reverse order brings \<^verbatim>\<open>next\<close> back and changes nothing else.
\<close>

lemma lifo_release_without_wrap:
  assumes "mallocs s ns = Inr (ps, s')" and "NULL \<notin> set ps"
    and "unat (next s) + sum_list (map (\<lambda>n. unat n + 7) ns) < 2 ^ 32"
  shows "frees s' (rev ps) = Inr (s'\<lparr>next := next s\<rparr>)"
  using assms
proof (induction ns arbitrary: s ps)
  case Nil
  then show ?case by simp
next
  case (Cons n ns)
  from Cons.prems(1) obtain p s1 ps1 where m: "malloc s n = Inr (p, s1)"
    and r: "mallocs s1 ns = Inr (ps1, s')" and ps: "ps = p # ps1"
    by (auto split: sum.splits)
  have p: "p \<noteq> NULL" and ps1: "NULL \<notin> set ps1"
    using Cons.prems(2) ps by auto
  have nw: "unat (next s) + unat n + 7 < 2 ^ 32"
    using Cons.prems(3) by simp
  note f = malloc_frame [OF m nw]
  have nw1: "unat (next s1) + sum_list (map (\<lambda>n. unat n + 7) ns) < 2 ^ 32"
    using Cons.prems(3) f(2) by simp
  note fr = mallocs_frame [OF r nw1]
  have ih: "frees s' (rev ps1) = Inr (s'\<lparr>next := next s1\<rparr>)"
    using r ps1 nw1 by (rule Cons.IH)
  from malloc_cases [OF m] p
  have pd: "p = data_of (next s)" and ib: "in_bounds s1 (next s) 4"
    and hd: "mem s1 = store32 (mem s) (next s) n" and nx: "next s1 = region_after (next s) n"
    by auto
  have "load32 (mem s') (next s) = load32 (mem s1) (next s)"
  proof (rule load32_below)
    show "mem s' b = mem s1 b" if "unat b < unat (next s1)" for b
      using fr that by blast
    show "unat (next s) + 4 \<le> unat (next s1)"
      using f(4) [OF p] .
    show "unat (next s1) < 2 ^ 32"
      using unsigned_less [of "next s1"] by simp
  qed
  then have "load32 (mem s') (next s) = n"
    by (simp add: hd)
  moreover have "in_bounds s' (next s) 4"
    using ib fr by (simp add: in_bounds_def mem_bytes_def)
  ultimately have "last_block (s'\<lparr>next := next s1\<rparr>) p n"
    using p by (simp add: last_block_def pd nx in_bounds_def mem_bytes_def)
  from free_last_block [OF this] have "free (s'\<lparr>next := next s1\<rparr>) p = Inr (s'\<lparr>next := next s\<rparr>)"
    by (simp add: pd)
  then show ?case
    by (simp add: ps frees_append ih)
qed

text \<open>
  Where no region wraps around: once a later allocation has succeeded, the release of an
  earlier block changes nothing.
\<close>

lemma free_of_earlier_block_without_wrap:
  assumes m: "malloc s n = Inr (p, s1)" and p: "p \<noteq> NULL"
    and r: "mallocs s1 ns = Inr (ps, s')" and later: "\<exists>q\<in>set ps. q \<noteq> NULL"
    and nw: "unat (next s) + sum_list (map (\<lambda>n. unat n + 7) (n # ns)) < 2 ^ 32"
  shows "free s' p = Inr s'"
proof -
  have nw0: "unat (next s) + unat n + 7 < 2 ^ 32"
    using nw by simp
  note f = malloc_frame [OF m nw0]
  have nw1: "unat (next s1) + sum_list (map (\<lambda>n. unat n + 7) ns) < 2 ^ 32"
    using nw f(2) by simp
  note fr = mallocs_frame [OF r nw1]
  from malloc_cases [OF m] p
  have pd: "p = data_of (next s)" and ib: "in_bounds s1 (next s) 4"
    and hd: "mem s1 = store32 (mem s) (next s) n" and nx: "next s1 = region_after (next s) n"
    by auto
  have "load32 (mem s') (next s) = load32 (mem s1) (next s)"
  proof (rule load32_below)
    show "mem s' b = mem s1 b" if "unat b < unat (next s1)" for b
      using fr that by blast
    show "unat (next s) + 4 \<le> unat (next s1)"
      using f(4) [OF p] .
    show "unat (next s1) < 2 ^ 32"
      using unsigned_less [of "next s1"] by simp
  qed
  then have h: "load32 (mem s') (next s) = n"
    by (simp add: hd)
  have ib': "in_bounds s' (next s) 4"
    using ib fr by (simp add: in_bounds_def mem_bytes_def)
  have "unat (next s1) + 4 \<le> unat (next s')"
    using fr later by blast
  then have "next s' \<noteq> region_after (next s) n"
    using nx by auto
  then show ?thesis
    using p ib' h by (simp add: free_def Let_def pd)
qed

subsection \<open>calloc after a failed allocation\<close>

text \<open>
  \<^verbatim>\<open>calloc\<close> passes the result of \<^verbatim>\<open>malloc\<close> to \<^verbatim>\<open>memset\<close> without a test. When \<^verbatim>\<open>malloc\<close>
  fails on the ceiling, \<^verbatim>\<open>memset\<close> is called at address 0 with the full length: here 5 MiB
  in a memory of one page, which traps.
\<close>

lemma calloc_beyond_ceiling_traps:
  "malloc small_heap (1 * 5242880) = Inr (NULL, small_heap)
   \<and> calloc small_heap 1 5242880 = Inl OutOfBounds"
  by (simp add: evaluate)

subsection \<open>Alignment is kept\<close>

lemma aligned4_dvd: "aligned4 p = (4 dvd unat p)"
  using and_mask_dvd_nat [of 2 p] by (simp add: aligned4_def three_mask)

lemma aligned4_add4: "aligned4 (r + 4) = aligned4 r"
proof -
  have "unat (r + 4) = (unat r + 4) mod 2 ^ 32"
    by (simp add: unat_word_ariths)
  moreover have "(4 :: nat) dvd 2 ^ 32"
    by simp
  ultimately have "(4 dvd unat (r + 4)) = (4 dvd unat r + 4)"
    by (simp only: dvd_mod_iff)
  then show ?thesis
    by (simp add: aligned4_dvd)
qed

lemma aligned4_NULL [simp]: "aligned4 NULL"
  by (simp add: aligned4_def NULL_def)

lemma aligned4_region_after [simp]: "aligned4 (region_after r sz)"
proof -
  have "((x :: 32 word) AND NOT (mask 2)) AND mask 2 = 0" for x
    by (rule bit_word_eqI) (auto simp add: bit_simps)
  then show ?thesis
    by (simp only: aligned4_def region_after_def Let_def three_mask)
qed

lemma aligned4_data_of: "aligned4 r \<Longrightarrow> aligned4 (data_of r)"
  by (simp add: data_of_def sizeof_Region_def aligned4_add4)

lemma aligned4_region_for_ptr: "aligned4 p \<Longrightarrow> aligned4 (region_for_ptr p)"
  using aligned4_add4 [of "p - 4"] by (simp add: region_for_ptr_def sizeof_Region_def)

lemma malloc_aligned:
  assumes "malloc s sz = Inr (p, s')" and "aligned4 (next s)"
  shows "aligned4 p \<and> aligned4 (next s')"
  using malloc_cases [OF assms(1)] assms(2)
  by (auto simp add: aligned4_data_of)

lemma memset_next: "memset s d c n = Inr s' \<Longrightarrow> next s' = next s"
  by (auto simp add: memset_def split: if_splits)

lemma memcpy_next: "memcpy s d src n = Inr s' \<Longrightarrow> next s' = next s"
  by (auto simp add: memcpy_def split: if_splits)

lemma calloc_aligned:
  assumes "calloc s c n = Inr (p, s')" and "aligned4 (next s)"
  shows "aligned4 p \<and> aligned4 (next s')"
proof -
  from assms(1) obtain s1 where m: "malloc s (c * n) = Inr (p, s1)"
    and z: "memset s1 p 0 (c * n) = Inr s'"
    by (auto simp add: calloc_def split: sum.splits)
  from malloc_aligned [OF m assms(2)] memset_next [OF z] show ?thesis
    by simp
qed

lemma free_aligned:
  assumes "free s q = Inr s'" and "aligned4 (next s)" and "aligned4 q"
  shows "aligned4 (next s')"
  using assms
  by (auto simp add: free_def Let_def aligned4_region_for_ptr split: if_splits)

lemma realloc_aligned:
  assumes "realloc s q n = Inr (p, s')" and "aligned4 (next s)" and "aligned4 q"
  shows "aligned4 p \<and> aligned4 (next s')"
proof (cases "q = NULL")
  case True
  then show ?thesis
    using assms malloc_aligned [of s n p s'] by (simp add: realloc_def)
next
  case False
  show ?thesis
  proof (cases "region_after (region_for_ptr q) (load32 (mem s) (region_for_ptr q)) = next s")
    case True
    with False assms(1) have "malloc (s\<lparr>next := region_for_ptr q\<rparr>) n = Inr (p, s')"
      by (simp add: realloc_def Let_def split: if_splits)
    then show ?thesis
      using malloc_aligned [of "s\<lparr>next := region_for_ptr q\<rparr>" n p s'] assms(3)
      by (simp add: aligned4_region_for_ptr)
  next
    case ne: False
    with False assms(1) obtain s1 where m: "malloc s n = Inr (p, s1)"
      and c: "memcpy s1 p (data_of (region_for_ptr q)) (load32 (mem s1) (region_for_ptr q)) = Inr s'"
      by (auto simp add: realloc_def Let_def split: if_splits sum.splits)
    from malloc_aligned [OF m assms(2)] memcpy_next [OF c] show ?thesis
      by simp
  qed
qed

lemma exec_call_aligned:
  assumes "exec_call s c = Inr (qs, s')" and "args_ok ps c"
    and "aligned4 (next s)" and "\<forall>p\<in>set ps. aligned4 p"
  shows "aligned4 (next s') \<and> (\<forall>p\<in>set qs. aligned4 p)"
proof (cases c)
  case (Malloc n)
  then show ?thesis
    using assms malloc_aligned [of s n] by (auto split: sum.splits)
next
  case (Calloc k n)
  then show ?thesis
    using assms calloc_aligned [of s k n] by (auto split: sum.splits)
next
  case (Realloc q n)
  then have "aligned4 q" using assms(2,4) by auto
  then show ?thesis
    using Realloc assms(1,3) realloc_aligned [of s q n] by (auto split: sum.splits)
next
  case (Free q)
  then have "aligned4 q" using assms(2,4) by auto
  then show ?thesis
    using Free assms(1,3) free_aligned [of s q] by (auto split: sum.splits)
qed

lemma run_aligned:
  assumes "run ps s cs = Inr (ps', s')"
    and "aligned4 (next s)" and "\<forall>p\<in>set ps. aligned4 p"
  shows "aligned4 (next s') \<and> (\<forall>p\<in>set ps'. aligned4 p)"
  using assms
proof (induction cs arbitrary: ps s)
  case Nil
  then show ?case by simp
next
  case (Cons c cs)
  from Cons.prems(1) have ok: "args_ok ps c"
    by (simp split: if_splits)
  with Cons.prems(1) obtain qs s1 where e: "exec_call s c = Inr (qs, s1)"
    and r: "run (ps @ qs) s1 cs = Inr (ps', s')"
    by (auto split: sum.splits)
  from exec_call_aligned [OF e ok Cons.prems(2,3)]
  have "aligned4 (next s1)" and "\<forall>p\<in>set (ps @ qs). aligned4 p"
    using Cons.prems(3) by auto
  with Cons.IH [OF r] show ?case by simp
qed

subsection \<open>Runs that do not depend on old memory\<close>
















text \<open>
  A \<^verbatim>\<open>realloc\<close> of a block that is not the last one calls \<^verbatim>\<open>memcpy\<close> with the result of
  \<^verbatim>\<open>malloc\<close> without a test. When \<^verbatim>\<open>malloc\<close> fails, the bytes of the block are copied to
  address 0 and beyond; with the heap at 1024 a block of 1100 bytes lands on its own header,
  which then holds whatever the block held at offset 1024. After the same five calls
  \<^verbatim>\<open>next\<close> is 2128 in a zeroed memory and 1024 in \<open>stale_bytes\<close>.
\<close>

lemma failed_realloc_lets_old_bytes_in:
  "observed (run [] (reset_heap (instantiated 1 2048) 1024)
       [Malloc 1100, Malloc 8, Realloc 1028 5242880, Free 2132, Free 1028])
     = Inr ([1028, 2132, NULL], (65536, 1024, 2128, 1))
   \<and> observed (run [] (reset_heap stale_bytes 1024)
       [Malloc 1100, Malloc 8, Realloc 1028 5242880, Free 2132, Free 1028])
     = Inr ([1028, 2132, NULL], (65536, 1024, 1024, 1))"
  by (simp add: evaluate stale_bytes_def observed_def statics_def load32_def store32_def)

section \<open>Facts about the cursor\<close>

lemma step_to_cases:
  "step_to hidden t = (if hidden (symbol t) then TreeCursorStepHidden else TreeCursorStepVisible)"
  by (simp add: step_to_def)

lemma stack_changed: "stack c' \<noteq> stack c \<Longrightarrow> c' \<noteq> c"
  by auto

lemma first_child_outcome:
  assumes "ts_tree_cursor_goto_first_child_internal hidden c = (r, c')"
  shows "(r = TreeCursorStepNone) = (\<not> move_exists FirstChild c)
     \<and> (r = TreeCursorStepNone) = (c' = c)
     \<and> (r = TreeCursorStepHidden) = (move_exists FirstChild c \<and> hidden (symbol (current c')))
     \<and> (r = TreeCursorStepVisible) = (move_exists FirstChild c \<and> \<not> hidden (symbol (current c')))"
proof (cases "stack c" rule: rev_cases)
  case Nil
  then show ?thesis
    using assms by (auto simp add: ts_tree_cursor_goto_first_child_internal_def)
next
  case (snoc es e)
  show ?thesis
  proof (cases "children (subtree e)")
    case Nil
    then show ?thesis
      using assms snoc
      by (auto simp add: ts_tree_cursor_goto_first_child_internal_def current_def)
  next
    case (Cons ch chs)
    then have r: "r = step_to hidden ch"
      and c': "c' = c\<lparr>stack := stack c @ [\<lparr>subtree = ch, position = position e, child_index = 0\<rparr>]\<rparr>"
      using assms snoc
      by (auto simp add: ts_tree_cursor_goto_first_child_internal_def)
    have "stack c' \<noteq> stack c" by (simp add: c')
    then have "c' \<noteq> c" by (rule stack_changed)
    moreover have "current c' = ch" by (simp add: c' current_def)
    moreover have "move_exists FirstChild c" by (simp add: snoc Cons current_def)
    ultimately show ?thesis
      by (simp add: r step_to_cases)
  qed
qed

lemma next_sibling_outcome:
  assumes "ts_tree_cursor_goto_next_sibling_internal hidden c = (r, c')"
  shows "(r = TreeCursorStepNone) = (\<not> move_exists NextSibling c)
     \<and> (r = TreeCursorStepNone) = (c' = c)
     \<and> (r = TreeCursorStepHidden) = (move_exists NextSibling c \<and> hidden (symbol (current c')))
     \<and> (r = TreeCursorStepVisible) = (move_exists NextSibling c \<and> \<not> hidden (symbol (current c')))"
proof (cases "move_exists NextSibling c")
  case False
  then have "r = TreeCursorStepNone \<and> c' = c"
    using assms
    by (cases "stack c" rule: rev_cases; cases "butlast (stack c)" rule: rev_cases)
       (auto simp add: ts_tree_cursor_goto_next_sibling_internal_def Let_def split: list.splits)
  with False show ?thesis by auto
next
  case True
  then obtain es parent e where st: "stack c = es @ [parent, e]"
    by (cases "stack c" rule: rev_cases; cases "butlast (stack c)" rule: rev_cases) auto
  let ?i = "Suc (child_index e)"
  let ?ch = "children (subtree parent) ! ?i"
  from True st have lt: "?i < length (children (subtree parent))"
    by (simp add: butlast_append)
  with st assms have r: "r = step_to hidden ?ch"
    and c': "c' = c\<lparr>stack := butlast (stack c) @
                [\<lparr>subtree = ?ch, position = position e + extent (subtree e), child_index = ?i\<rparr>]\<rparr>"
    by (auto simp add: ts_tree_cursor_goto_next_sibling_internal_def Let_def)
  have "child_index (last (stack c')) \<noteq> child_index (last (stack c))"
    by (simp add: c' st)
  then have "stack c' \<noteq> stack c" by auto
  then have "c' \<noteq> c" by (rule stack_changed)
  moreover have "current c' = ?ch" by (simp add: c' current_def)
  ultimately show ?thesis
    using True by (simp add: r step_to_cases)
qed

section \<open>The claims\<close>

subsection \<open>C1: release in reverse order\<close>

text \<open>
  Claim C1 says that \<open>N\<close> successful allocations followed by the release of their pointers
  in reverse order bring \<^verbatim>\<open>next\<close> back to where it was. \<^verbatim>\<open>malloc\<close> does not reject a size
  whose region wraps around the address space: with \<^verbatim>\<open>next\<close> at 1024, the sizes 4,
  4294967284 and 100 give the pointers 1028, 1036 and 1028 again, the second region ending
  at 1024, so that the third header replaces the first. Released in reverse order, the
  last call finds a header of 100 in front of 1028 and leaves \<^verbatim>\<open>next\<close> at 1032. Where no
  region wraps around, the claim holds (\<open>lifo_release_without_wrap\<close>), and no release in
  any order writes to the memory (\<open>frees_keeps\<close>).
\<close>

theorem lifo_release_misses_start:
  "next small_heap = 1024
   \<and> unat (- 12 :: size_t) = 4294967284
   \<and> mallocs small_heap [4, - 12, 100] = Inr ([1028, 1036, 1028], wrapped_heap)
   \<and> frees wrapped_heap (rev [1028, 1036, 1028]) = Inr (wrapped_heap\<lparr>next := 1032\<rparr>)
   \<and> next (wrapped_heap\<lparr>next := 1032\<rparr>) \<noteq> next small_heap"
  by (simp add: evaluate wrapped_heap_def load32_store32_other)

subsection \<open>C2: release of the last block and of an earlier one\<close>

text \<open>
  Claim C2 says that the release of the last block rewinds \<^verbatim>\<open>next\<close>, and that the release
  of a block allocated before the last one changes nothing. The second part fails where a
  size wraps around: with \<^verbatim>\<open>next\<close> at 1024, \<^verbatim>\<open>malloc(4)\<close> returns 1028 and
  \<^verbatim>\<open>malloc(4294967292)\<close> returns 1036 with a region that ends where it starts, at 1032. The
  release of the earlier block 1028 then finds its region ending at \<^verbatim>\<open>next\<close> and rewinds
  \<^verbatim>\<open>next\<close> to 1024, below the live block 1036. The first part holds in every state
  (\<open>free_of_last_block_rewinds\<close>), the second where no region wraps around
  (\<open>free_of_earlier_block_without_wrap\<close>).
\<close>

theorem free_of_earlier_block_rewinds:
  "unat (- 4 :: size_t) = 4294967292
   \<and> mallocs small_heap [4, - 4] = Inr ([1028, 1036], empty_tail_heap)
   \<and> next empty_tail_heap = 1032
   \<and> free empty_tail_heap 1028 = Inr (empty_tail_heap\<lparr>next := 1024\<rparr>)
   \<and> empty_tail_heap\<lparr>next := 1024\<rparr> \<noteq> empty_tail_heap"
  by (simp add: evaluate empty_tail_heap_def load32_store32_other)

subsection \<open>C3: requests beyond the ceiling\<close>

text \<open>
  Claim C3 says that every request through \<^verbatim>\<open>malloc\<close>, \<^verbatim>\<open>calloc\<close> or \<^verbatim>\<open>realloc\<close> that would
  take the heap past \<^verbatim>\<open>MAX_HEAP_SIZE\<close> returns \<^verbatim>\<open>NULL\<close>. As stated it fails: the ceiling is
  tested only when the memory has to grow. With the heap at 1024 in a sandbox of one page,
  \<^verbatim>\<open>malloc(4194300)\<close> ends exactly at the ceiling and grows the memory by 64 pages, to
  4259840 bytes; the following \<^verbatim>\<open>malloc(100)\<close> ends 4194408 bytes after \<^verbatim>\<open>heap_start\<close>, fits
  below \<^verbatim>\<open>heap_end\<close>, and returns 4195332.
\<close>

theorem malloc_within_memory_passes_ceiling:
  "malloc small_heap 4194300 = Inr (1028, big_heap)
   \<and> unat MAX_HEAP_SIZE < true_region_end (next big_heap) 100 - unat (heap_start big_heap)
   \<and> malloc big_heap 100 = Inr (4195332, bigger_heap)
   \<and> 4195332 \<noteq> NULL"
  by (simp add: evaluate big_heap_def bigger_heap_def true_region_end_def)

text \<open>
  Claim C3, amended: a call of \<^verbatim>\<open>malloc\<close> (or of \<^verbatim>\<open>realloc\<close> with a \<^verbatim>\<open>NULL\<close> pointer) whose
  region would end beyond the current \<^verbatim>\<open>heap_end\<close> and more than \<^verbatim>\<open>MAX_HEAP_SIZE\<close> bytes
  after \<^verbatim>\<open>heap_start\<close> returns \<^verbatim>\<open>NULL\<close> and leaves the whole state as it was, so that every
  later request is served as if the call had not been made. The end of the region is
  taken in unbounded arithmetic; it lies below 4 GiB and less than 2 GiB after
  \<^verbatim>\<open>heap_start\<close>.
\<close>

theorem malloc_beyond_ceiling_returns_NULL:
  assumes "true_region_end (next s) sz < 2 ^ 32"
    and "unat (heap_end s) < true_region_end (next s) sz"
    and "unat MAX_HEAP_SIZE < true_region_end (next s) sz - unat (heap_start s)"
    and "true_region_end (next s) sz - unat (heap_start s) < 2 ^ 31"
  shows "malloc s sz = Inr (NULL, s) \<and> realloc s NULL sz = Inr (NULL, s)"
proof -
  have u: "unat (region_after (next s) sz) = true_region_end (next s) sz"
    using assms(1) by (rule unat_region_after)
  have grow: "heap_end s < region_after (next s) sz"
    using assms(2) by (simp add: word_less_nat_alt u)
  have "unat (heap_start s) \<le> true_region_end (next s) sz"
    using assms(3) by simp
  then have "MAX_HEAP_SIZE <s region_after (next s) sz - heap_start s"
    using assms ceiling_test [of "next s" sz "heap_start s"] by simp
  with grow have "malloc s sz = Inr (NULL, s)"
    by (simp add: malloc_def Let_def)
  then show ?thesis
    by (simp add: realloc_def)
qed

text \<open>The theorem at a request of 5 MiB in \<open>small_heap\<close>.\<close>

theorem malloc_beyond_ceiling_witness:
  "true_region_end (next small_heap) 5242880 < 2 ^ 32
   \<and> unat (heap_end small_heap) < true_region_end (next small_heap) 5242880
   \<and> unat MAX_HEAP_SIZE < true_region_end (next small_heap) 5242880 - unat (heap_start small_heap)
   \<and> true_region_end (next small_heap) 5242880 - unat (heap_start small_heap) < 2 ^ 31
   \<and> malloc small_heap 5242880 = Inr (NULL, small_heap)
   \<and> realloc small_heap NULL 5242880 = Inr (NULL, small_heap)"
proof -
  have h: "true_region_end (next small_heap) 5242880 < 2 ^ 32"
    "unat (heap_end small_heap) < true_region_end (next small_heap) 5242880"
    "unat MAX_HEAP_SIZE < true_region_end (next small_heap) 5242880 - unat (heap_start small_heap)"
    "true_region_end (next small_heap) 5242880 - unat (heap_start small_heap) < 2 ^ 31"
    by (simp_all add: true_region_end_def small_heap_def instantiated_def alloc_defs)
  from malloc_beyond_ceiling_returns_NULL [OF h] h show ?thesis by simp
qed

subsection \<open>C4: realloc of the last block\<close>



subsection \<open>C5: reset_heap\<close>




subsection \<open>C6: the result of a cursor step\<close>

text \<open>
  Claim C6: every call of a step operation of the cursor (to the first child, to the next
  sibling) returns exactly one of three results that exclude each other: \<open>None\<close> when the
  move does not exist, and then the cursor stays as it is; \<open>Hidden\<close> when the cursor moved
  and is now at a node that the grammar hides; \<open>Visible\<close> when it moved to a visible node.
\<close>

theorem step_returns_one_of_three:
  assumes "step_internal m hidden c = (r, c')"
  shows "(r = TreeCursorStepNone \<or> r = TreeCursorStepHidden \<or> r = TreeCursorStepVisible)
     \<and> \<not> (r = TreeCursorStepNone \<and> r = TreeCursorStepHidden)
     \<and> \<not> (r = TreeCursorStepNone \<and> r = TreeCursorStepVisible)
     \<and> \<not> (r = TreeCursorStepHidden \<and> r = TreeCursorStepVisible)
     \<and> (r = TreeCursorStepNone) = (\<not> move_exists m c)
     \<and> (r = TreeCursorStepNone) = (c' = c)
     \<and> (r = TreeCursorStepHidden) = (move_exists m c \<and> hidden (symbol (current c')))
     \<and> (r = TreeCursorStepVisible) = (move_exists m c \<and> \<not> hidden (symbol (current c')))"
proof -
  have "r = TreeCursorStepNone \<or> r = TreeCursorStepHidden \<or> r = TreeCursorStepVisible"
    by (cases r) simp_all
  moreover have "(r = TreeCursorStepNone) = (\<not> move_exists m c)
     \<and> (r = TreeCursorStepNone) = (c' = c)
     \<and> (r = TreeCursorStepHidden) = (move_exists m c \<and> hidden (symbol (current c')))
     \<and> (r = TreeCursorStepVisible) = (move_exists m c \<and> \<not> hidden (symbol (current c')))"
  proof (cases m)
    case FirstChild
    with assms have "ts_tree_cursor_goto_first_child_internal hidden c = (r, c')"
      by simp
    from first_child_outcome [OF this] show ?thesis
      unfolding FirstChild .
  next
    case NextSibling
    with assms have "ts_tree_cursor_goto_next_sibling_internal hidden c = (r, c')"
      by simp
    from next_sibling_outcome [OF this] show ?thesis
      unfolding NextSibling .
  qed
  ultimately show ?thesis
    by blast
qed


text \<open>
  The theorem at the descent from the root of \<open>example_tree\<close>, whose first child has the
  hidden symbol 2.
\<close>

theorem step_witness:
  "step_internal FirstChild hidden_two example_cursor = (TreeCursorStepHidden, first_child_cursor)
   \<and> move_exists FirstChild example_cursor
   \<and> hidden_two (symbol (current first_child_cursor))
   \<and> first_child_cursor \<noteq> example_cursor"
proof -
  have h: "step_internal FirstChild hidden_two example_cursor
      = (TreeCursorStepHidden, first_child_cursor)"
    by (simp add: ts_tree_cursor_goto_first_child_internal_def example_cursor_def
        example_tree_def first_child_cursor_def step_to_def hidden_two_def)
  from step_returns_one_of_three [OF h] h show ?thesis
    by simp
qed

subsection \<open>C7: the scanner calls\<close>

text \<open>
  Claim C7 says that the sandbox exposes four scanner calls and no others, and names five:
  create, destroy, scan, serialize and deserialize. The header declares five.
\<close>

theorem scanner_calls_are_not_four:
  "length scanner_calls = 5 \<and> length scanner_calls \<noteq> 4"
  by (simp add: scanner_calls_def wasm_store_h_def is_scanner_call_def scanner_prefix_def)

text \<open>
  Claim C7, amended: the sandbox exposes five scanner calls and no others. In the order of
  the header: create, which returns the handle of the instance as a \<^verbatim>\<open>uint32_t\<close>; destroy;
  scan, which returns whether a token matched; serialize, which writes to a buffer and
  returns a length; deserialize, which takes a buffer and its length. Each takes the store
  first, and all but create take the handle next.
\<close>

theorem scanner_calls_are_five:
  "map operation scanner_calls = [''create'', ''destroy'', ''scan'', ''serialize'', ''deserialize'']
   \<and> map d_returns scanner_calls = [CUint32, CVoid, CBool, CUint32, CVoid]
   \<and> map d_params scanner_calls =
        [[CPtr ''TSWasmStore''],
         [CPtr ''TSWasmStore'', CUint32],
         [CPtr ''TSWasmStore'', CUint32, CUint32],
         [CPtr ''TSWasmStore'', CUint32, CPtr ''char''],
         [CPtr ''TSWasmStore'', CUint32, CConstPtr ''char'', CUnsigned]]"
  by (simp add: scanner_calls_def wasm_store_h_def is_scanner_call_def scanner_prefix_def
      operation_def)

subsection \<open>C8: the region returned by malloc and the end of the heap\<close>

text \<open>
  Claim C8 says that a region returned by \<^verbatim>\<open>malloc\<close> lies at or below \<^verbatim>\<open>heap_end\<close>, and
  that \<^verbatim>\<open>grow_heap\<close> always asks for enough pages to cover the new region with its header
  and padding. The code does not: \<^verbatim>\<open>grow_heap(size)\<close> covers \<^verbatim>\<open>size\<close> bytes only. In a sandbox
  of one page with the heap at 1024, \<^verbatim>\<open>malloc(64508)\<close> returns 1028 and leaves \<^verbatim>\<open>next\<close> at
  \<^verbatim>\<open>heap_end\<close>, 65536; \<^verbatim>\<open>malloc(65536)\<close> then grows the memory by one page and returns 65540,
  a region that ends four bytes past \<^verbatim>\<open>heap_end\<close> and past the end of the linear memory.
\<close>

theorem malloc_region_past_heap_end:
  "malloc small_heap 64508 = Inr (1028, full_page)
   \<and> next full_page = heap_end full_page
   \<and> malloc full_page 65536 = Inr (65540, grown_page)
   \<and> heap_end grown_page = 131072
   \<and> mem_bytes grown_page = 131072
   \<and> heap_end grown_page < 65540 + 65536
   \<and> \<not> in_bounds grown_page 65540 65536"
  by (simp add: evaluate full_page_def grown_page_def)

subsection \<open>C9: a realloc that fails\<close>

text \<open>
  Claim C9 says that a \<^verbatim>\<open>realloc\<close> that returns \<^verbatim>\<open>NULL\<close> leaves the allocator state
  unchanged, so that the block stays a live allocation that later calls of \<^verbatim>\<open>malloc\<close> do
  not overlap. The code rewinds \<^verbatim>\<open>next\<close> to the block before it calls \<^verbatim>\<open>malloc\<close>: with
  the heap at 1024 in a sandbox of one page, the block 1028 of 16 bytes is the last one;
  \<^verbatim>\<open>realloc(1028, 5242880)\<close> returns \<^verbatim>\<open>NULL\<close> and leaves \<^verbatim>\<open>next\<close> at 1024 instead of 1044,
  and the next \<^verbatim>\<open>malloc(16)\<close> returns 1028 again.
\<close>

theorem failed_realloc_releases_block:
  "malloc small_heap 16 = Inr (1028, one_block)
   \<and> next one_block = 1044
   \<and> realloc one_block 1028 5242880 = Inr (NULL, one_block\<lparr>next := 1024\<rparr>)
   \<and> one_block\<lparr>next := 1024\<rparr> \<noteq> one_block
   \<and> malloc (one_block\<lparr>next := 1024\<rparr>) 16 = Inr (1028, one_block)"
  by (simp add: evaluate one_block_def)

subsection \<open>C10: alignment\<close>

text \<open>
  Claim C10: when \<^verbatim>\<open>reset_heap\<close> was called with an address that is a multiple of four, then
  after every run of \<^verbatim>\<open>malloc\<close>, \<^verbatim>\<open>calloc\<close>, \<^verbatim>\<open>realloc\<close> and \<^verbatim>\<open>free\<close> calls \<^verbatim>\<open>next\<close> is a
  multiple of four, and so is every pointer that an allocation call of the run returned
  (\<^verbatim>\<open>NULL\<close> included). The calls of a run pass to \<^verbatim>\<open>free\<close> and \<^verbatim>\<open>realloc\<close> only \<^verbatim>\<open>NULL\<close> or
  pointers that the run returned before.
\<close>

theorem alignment_is_invariant:
  assumes "aligned4 a" and "run [] (reset_heap s a) cs = Inr (ps, s')"
  shows "aligned4 (next s') \<and> (\<forall>p\<in>set ps. aligned4 p)"
  using run_aligned [OF assms(2)] assms(1)
  by (simp add: reset_heap_def)

text \<open>
  The theorem at a run with the heap at 1024 in a sandbox of one page: two allocations, the
  release of the second, a \<^verbatim>\<open>calloc\<close>, the \<^verbatim>\<open>realloc\<close> of the first block and a release.
\<close>

theorem alignment_witness:
  "aligned4 1024
   \<and> (\<exists>s'. run [] (reset_heap (instantiated 1 2048) 1024)
              [Malloc 5, Malloc 7, Free 1040, Calloc 3 3, Realloc 1028 9, Free 1056]
            = Inr ([1028, 1040, 1040, 1056], s')
          \<and> aligned4 (next s')
          \<and> (\<forall>p\<in>set [1028, 1040, 1040, 1056]. aligned4 p))"
proof -
  have h1: "aligned4 1024"
    by (simp add: aligned4_def)
  have "\<exists>s'. run [] (reset_heap (instantiated 1 2048) 1024)
              [Malloc 5, Malloc 7, Free 1040, Calloc 3 3, Realloc 1028 9, Free 1056]
            = Inr ([1028, 1040, 1040, 1056], s')"
    by (simp add: evaluate load32_def store32_def)
  then obtain s' where h2: "run [] (reset_heap (instantiated 1 2048) 1024)
              [Malloc 5, Malloc 7, Free 1040, Calloc 3 3, Realloc 1028 9, Free 1056]
            = Inr ([1028, 1040, 1040, 1056], s')"
    by blast
  from alignment_is_invariant [OF h1 h2] h1 h2 show ?thesis by blast
qed

end
